theory Spec2Isabelle
  imports Complex_Main "HOL-Library.Multiset"
begin

section \<open>Numeric model\<close>

text \<open>
  The helper routines of \<^verbatim>\<open>utils/utils.py\<close> work on NumPy vectors of numbers.
  Floating-point numbers are mathematical reals here (no rounding, no overflow); the
  outcome of a floating-point division is kept explicit, since a zero divisor gives a
  non-finite value instead of raising.  Exceptions of the source are values of
  \<open>error\<close>.
\<close>

datatype error = ValueError | IndexError

datatype npfloat = Finite real | PosInf | NegInf | NaN

text \<open>\<^verbatim>\<open>a / b\<close> on two NumPy floating-point scalars.\<close>

definition fdiv :: "real \<Rightarrow> real \<Rightarrow> npfloat" where
  "fdiv a b =
     (if b \<noteq> 0 then Finite (a / b)
      else if a = 0 then NaN
      else if 0 < a then PosInf else NegInf)"

text \<open>
  A ground-truth vector is an array of 64-bit integers or of floats; powers, differences
  and sums of its labels are computed in the array's own type.  \<open>label_values\<close> reads
  the labels as numbers.
\<close>

datatype labels = Ints "int list" | Floats "real list"

fun label_values :: "labels \<Rightarrow> real list" where
  "label_values (Ints ys) = map real_of_int ys"
| "label_values (Floats ys) = ys"

text \<open>The value a 64-bit signed integer holds after an operation whose exact result is \<open>i\<close>.\<close>

definition wrap64 :: "int \<Rightarrow> int" where
  "wrap64 i = (i + 2 ^ 63) mod 2 ^ 64 - 2 ^ 63"

text \<open>
  \<^verbatim>\<open>np.argsort\<close> belongs to NumPy, not to this program, and the functions below take
  it as their first argument.  What NumPy promises of it is \<open>sorts_indices\<close>: the
  result is a permutation of the indices along which the values ascend.  The order of
  equal values is left open, as it is by NumPy's default sort kind.  \<open>compares_only\<close>
  says that the result depends on the values only through their comparisons.
\<close>

definition sorts_indices :: "(real list \<Rightarrow> nat list) \<Rightarrow> bool" where
  "sorts_indices argsort \<longleftrightarrow>
     (\<forall>v. mset (argsort v) = mset [0..<length v] \<and> sorted (map (\<lambda>i. v ! i) (argsort v)))"

definition compares_only :: "(real list \<Rightarrow> nat list) \<Rightarrow> bool" where
  "compares_only argsort \<longleftrightarrow>
     (\<forall>v w. length v = length w
        \<and> (\<forall>i<length v. \<forall>j<length v. (v ! i \<le> v ! j) = (w ! i \<le> w ! j))
        \<longrightarrow> argsort v = argsort w)"

text \<open>
  Two sorts that keep the promise: one leaves equal values in index order, the other in
  reverse index order.
\<close>

definition stable_argsort :: "real list \<Rightarrow> nat list" where
  "stable_argsort v = sort_key (\<lambda>i. v ! i) [0..<length v]"

definition reverse_ties_argsort :: "real list \<Rightarrow> nat list" where
  "reverse_ties_argsort v = sort_key (\<lambda>i. v ! i) (rev [0..<length v])"

text \<open>\<^verbatim>\<open>xs[:k]\<close>: a negative bound counts from the end.\<close>

definition slice_to :: "'a list \<Rightarrow> int \<Rightarrow> 'a list" where
  "slice_to xs k =
     (if 0 \<le> k then take (nat k) xs else take (nat (int (length xs) + k)) xs)"

text \<open>\<^verbatim>\<open>np.take(v, idx)\<close>: an index past the end raises; the result has the type of \<open>v\<close>.\<close>

definition np_take :: "'a list \<Rightarrow> nat list \<Rightarrow> error + 'a list" where
  "np_take v idx =
     (if list_all (\<lambda>i. i < length v) idx then Inr (map (\<lambda>i. v ! i) idx)
      else Inl IndexError)"

fun take_labels :: "labels \<Rightarrow> nat list \<Rightarrow> error + labels" where
  "take_labels (Ints ys) idx = (case np_take ys idx of Inl e \<Rightarrow> Inl e | Inr zs \<Rightarrow> Inr (Ints zs))"
| "take_labels (Floats ys) idx =
     (case np_take ys idx of Inl e \<Rightarrow> Inl e | Inr zs \<Rightarrow> Inr (Floats zs))"

text \<open>
  \<^verbatim>\<open>2 ** y_true - 1\<close>.  On an integer array the power and the subtraction are 64-bit
  integer operations, and a negative exponent raises; the division by the discounts
  then turns the gains into floats.
\<close>

fun gains_of :: "labels \<Rightarrow> error + real list" where
  "gains_of (Ints ys) =
     (if list_ex (\<lambda>y. y < 0) ys then Inl ValueError
      else Inr (map (\<lambda>y. real_of_int (wrap64 (wrap64 (2 ^ nat y) - 1))) ys))"
| "gains_of (Floats ys) = Inr (map (\<lambda>y. 2 powr y - 1) ys)"

text \<open>The labels on which the power does not raise.\<close>

fun int_labels_nonneg :: "labels \<Rightarrow> bool" where
  "int_labels_nonneg (Ints ys) = list_all (\<lambda>y. 0 \<le> y) ys"
| "int_labels_nonneg (Floats ys) = True"

text \<open>\<^verbatim>\<open>np.sum(y_true)\<close>: the sum of an integer array is a 64-bit integer.\<close>

fun np_sum :: "labels \<Rightarrow> real" where
  "np_sum (Ints ys) = real_of_int (wrap64 (sum_list ys))"
| "np_sum (Floats ys) = sum_list ys"

section \<open>Ranking metrics\<close>

definition dcg_score ::
  "(real list \<Rightarrow> nat list) \<Rightarrow> labels \<Rightarrow> real list \<Rightarrow> int \<Rightarrow> error + real" where
  "dcg_score argsort y_true y_score k =
     (let k' = min (int (length (label_values y_true))) k;
          order = rev (argsort y_score)
      in case take_labels y_true (slice_to order k') of
           Inl e \<Rightarrow> Inl e
         | Inr taken \<Rightarrow>
             (case gains_of taken of
                Inl e \<Rightarrow> Inl e
              | Inr gains \<Rightarrow>
                  (let discounts = map (\<lambda>i. log 2 (real i + 2)) [0..<length (label_values taken)]
                   in Inr (sum_list (map (\<lambda>(g, d). g / d) (zip gains discounts))))))"

text \<open>The ideal ranking scores the ground truth by itself.\<close>

definition ndcg_score ::
  "(real list \<Rightarrow> nat list) \<Rightarrow> labels \<Rightarrow> real list \<Rightarrow> int \<Rightarrow> error + npfloat" where
  "ndcg_score argsort y_true y_score k =
     (case dcg_score argsort y_true (label_values y_true) k of
        Inl e \<Rightarrow> Inl e
      | Inr best \<Rightarrow>
          (case dcg_score argsort y_true y_score k of
             Inl e \<Rightarrow> Inl e
           | Inr actual \<Rightarrow> Inr (fdiv actual best)))"

text \<open>\<^verbatim>\<open>np.where(y_true == 1)[0]\<close>\<close>

definition where_eq_one :: "real list \<Rightarrow> nat list" where
  "where_eq_one y_true = filter (\<lambda>i. y_true ! i = 1) [0..<length y_true]"

text \<open>The loop of \<open>hit_score\<close>: the first index found among the relevant ones returns 1.\<close>

fun hit_loop :: "nat list \<Rightarrow> nat list \<Rightarrow> int" where
  "hit_loop [] ground_truth = 0"
| "hit_loop (idx # rest) ground_truth =
     (if idx \<in> set ground_truth then 1 else hit_loop rest ground_truth)"

definition hit_score :: "(real list \<Rightarrow> nat list) \<Rightarrow> labels \<Rightarrow> real list \<Rightarrow> int \<Rightarrow> int" where
  "hit_score argsort y_true y_score k =
     (let ground_truth = where_eq_one (label_values y_true);
          top_k = slice_to (rev (argsort y_score)) k
      in hit_loop top_k ground_truth)"

text \<open>
  In \<open>mrr_score\<close> the division by the ranks turns the labels into floats; the total
  \<^verbatim>\<open>np.sum(y_true)\<close> is taken in the array's own type.
\<close>

definition mrr_score ::
  "(real list \<Rightarrow> nat list) \<Rightarrow> labels \<Rightarrow> real list \<Rightarrow> error + npfloat" where
  "mrr_score argsort y_true y_score =
     (let order = rev (argsort y_score)
      in case take_labels y_true order of
           Inl e \<Rightarrow> Inl e
         | Inr taken \<Rightarrow>
             (let rr_score = map (\<lambda>(y, i). y / (real i + 1))
                               (zip (label_values taken) [0..<length (label_values taken)])
              in Inr (fdiv (sum_list rr_score) (np_sum taken))))"

section \<open>Padding and stacking arrays\<close>

text \<open>
  An array of \<open>pad_and_stack\<close> is 1-D, or 2-D of shape \<open>(length rows, columns)\<close>;
  the column count is kept apart from the rows, since an array without rows still has
  one.  Arrays of other dimensions are outside the type.
\<close>

datatype 'a ndarray = Arr1 "'a list" | Arr2 nat "'a list list"

fun ndim :: "'a ndarray \<Rightarrow> nat" where
  "ndim (Arr1 xs) = 1"
| "ndim (Arr2 c rows) = 2"

text \<open>\<^verbatim>\<open>array.shape[-1]\<close> and \<^verbatim>\<open>array.shape[0]\<close>\<close>

fun shape_last :: "'a ndarray \<Rightarrow> nat" where
  "shape_last (Arr1 xs) = length xs"
| "shape_last (Arr2 c rows) = c"

fun shape_first :: "'a ndarray \<Rightarrow> nat" where
  "shape_first (Arr1 xs) = length xs"
| "shape_first (Arr2 c rows) = length rows"

text \<open>Every row of a 2-D array has as many entries as the array has columns.\<close>

fun wf_array :: "'a ndarray \<Rightarrow> bool" where
  "wf_array (Arr1 xs) = True"
| "wf_array (Arr2 c rows) = list_all (\<lambda>r. length r = c) rows"

text \<open>\<^verbatim>\<open>np.atleast_2d\<close>, which is also what \<^verbatim>\<open>array[np.newaxis,:]\<close> makes of a 1-D array.\<close>

fun atleast_2d :: "'a ndarray \<Rightarrow> 'a ndarray" where
  "atleast_2d (Arr1 xs) = Arr2 (length xs) [xs]"
| "atleast_2d (Arr2 c rows) = Arr2 c rows"

fun rows_of :: "'a ndarray \<Rightarrow> 'a list list" where
  "rows_of (Arr1 xs) = [xs]"
| "rows_of (Arr2 c rows) = rows"

text \<open>
  The first loop: \<^verbatim>\<open>arrays[i] = array[np.newaxis,:]\<close> stores into the caller's list
  at index \<open>i\<close> when the entry is 1-D.
\<close>

definition promote_at :: "'a ndarray list \<Rightarrow> nat \<Rightarrow> 'a ndarray list" where
  "promote_at arrays i =
     (if ndim (arrays ! i) = 1 then arrays[i := atleast_2d (arrays ! i)] else arrays)"

definition promote_loop :: "'a ndarray list \<Rightarrow> 'a ndarray list" where
  "promote_loop arrays = foldl promote_at arrays [0..<length arrays]"

text \<open>\<^verbatim>\<open>max(...)\<close> over a generator: no element raises.\<close>

fun py_max :: "nat list \<Rightarrow> error + nat" where
  "py_max [] = Inl ValueError"
| "py_max (c # cs) = Inr (fold max cs c)"

text \<open>\<^verbatim>\<open>np.full((r, n), pad_value)\<close>\<close>

definition np_full :: "nat \<Rightarrow> nat \<Rightarrow> 'a \<Rightarrow> 'a ndarray" where
  "np_full r n pad_value = Arr2 n (replicate r (replicate n pad_value))"

text \<open>\<^verbatim>\<open>np.hstack([a, b])\<close>: 2-D arrays are joined row by row and need equal row counts.\<close>

fun hstack :: "'a ndarray \<Rightarrow> 'a ndarray \<Rightarrow> error + 'a ndarray" where
  "hstack (Arr1 xs) (Arr1 ys) = Inr (Arr1 (xs @ ys))"
| "hstack (Arr2 c rows) (Arr2 c' rows') =
     (if length rows = length rows'
      then Inr (Arr2 (c + c') (map (\<lambda>(r, r'). r @ r') (zip rows rows')))
      else Inl ValueError)"
| "hstack a b = Inl ValueError"

text \<open>\<^verbatim>\<open>np.vstack(arrays)\<close>: the rows of all arrays, which need equal column counts.\<close>

fun vstack :: "'a ndarray list \<Rightarrow> error + 'a ndarray" where
  "vstack [] = Inl ValueError"
| "vstack (a # as) =
     (if list_all (\<lambda>b. shape_last b = shape_last a) as
      then Inr (Arr2 (shape_last a) (concat (map rows_of (a # as))))
      else Inl ValueError)"

text \<open>The second loop, one array at a time.\<close>

definition pad_array :: "nat \<Rightarrow> 'a \<Rightarrow> 'a ndarray \<Rightarrow> error + 'a ndarray" where
  "pad_array max_cols pad_value array =
     (let current_cols = shape_last array
      in if current_cols < max_cols
         then hstack array (np_full (shape_first array) (max_cols - current_cols) pad_value)
         else Inr array)"

fun pad_loop :: "nat \<Rightarrow> 'a \<Rightarrow> 'a ndarray list \<Rightarrow> error + 'a ndarray list" where
  "pad_loop max_cols pad_value [] = Inr []"
| "pad_loop max_cols pad_value (array # rest) =
     (case pad_array max_cols pad_value array of
        Inl e \<Rightarrow> Inl e
      | Inr padded \<Rightarrow>
          (case pad_loop max_cols pad_value rest of
             Inl e \<Rightarrow> Inl e
           | Inr padded_arrays \<Rightarrow> Inr (padded # padded_arrays)))"

text \<open>
  \<open>pad_and_stack\<close> returns the caller's list as the call leaves it, and the result of
  the call.
\<close>

definition pad_and_stack ::
  "'a ndarray list \<Rightarrow> 'a \<Rightarrow> 'a ndarray list \<times> (error + 'a ndarray)" where
  "pad_and_stack arrays pad_value =
     (let arrays' = promote_loop arrays
      in (arrays',
          case py_max (map shape_last arrays') of
            Inl e \<Rightarrow> Inl e
          | Inr max_cols \<Rightarrow>
              (case pad_loop max_cols pad_value arrays' of
                 Inl e \<Rightarrow> Inl e
               | Inr padded_arrays \<Rightarrow> vstack padded_arrays)))"

section \<open>Formatting a duration\<close>

text \<open>Decimal digits, \<^verbatim>\<open>str\<close> of an integer.\<close>

definition digit_char :: "nat \<Rightarrow> char" where
  "digit_char d = ''0123456789'' ! d"

fun str_nat :: "nat \<Rightarrow> string" where
  "str_nat n = (if n < 10 then [digit_char n] else str_nat (n div 10) @ [digit_char (n mod 10)])"

declare str_nat.simps [simp del]

definition str_int :: "int \<Rightarrow> string" where
  "str_int i = (if i < 0 then CHR ''-'' # str_nat (nat (- i)) else str_nat (nat i))"

text \<open>\<^verbatim>\<open>int(x)\<close> cuts the fraction off, towards zero.\<close>

definition py_int :: "real \<Rightarrow> int" where
  "py_int x = (if 0 \<le> x then \<lfloor>x\<rfloor> else \<lceil>x\<rceil>)"

text \<open>\<^verbatim>\<open>divmod(x, y)\<close> for a positive constant \<open>y\<close>: the floored quotient and the rest.\<close>

definition py_divmod :: "real \<Rightarrow> real \<Rightarrow> real \<times> real" where
  "py_divmod x y = (of_int \<lfloor>x / y\<rfloor>, x - of_int \<lfloor>x / y\<rfloor> * y)"

text \<open>
  \<^verbatim>\<open>f"{x:.2f}"\<close>: the value rounded to hundredths, a tie going to the even
  neighbour, with two digits after the point.
\<close>

definition round_half_even :: "real \<Rightarrow> int" where
  "round_half_even x =
     (let f = \<lfloor>x\<rfloor>; d = x - of_int f
      in if d < 1 / 2 then f else if 1 / 2 < d then f + 1 else if even f then f else f + 1)"

definition fmt_2f :: "real \<Rightarrow> string" where
  "fmt_2f x =
     (let h = nat (round_half_even (\<bar>x\<bar> * 100))
      in (if x < 0 then [CHR ''-''] else []) @ str_nat (h div 100) @ [CHR ''.'']
           @ [digit_char (h mod 100 div 10), digit_char (h mod 10)])"

definition format_time :: "real \<Rightarrow> string" where
  "format_time seconds =
     (let (days, remainder) = py_divmod seconds 86400;
          (hours, remainder) = py_divmod remainder 3600;
          (minutes, seconds) = py_divmod remainder 60
      in str_int (py_int days) @ ''d '' @ str_int (py_int hours) @ ''h ''
           @ str_int (py_int minutes) @ ''m '' @ fmt_2f seconds @ ''s'')"

section \<open>Properties of the sort\<close>

lemma sorts_indices_mset: "sorts_indices argsort \<Longrightarrow> mset (argsort v) = mset [0..<length v]"
  by (simp add: sorts_indices_def)

lemma sorts_indices_sorted:
  "sorts_indices argsort \<Longrightarrow> sorted (map (\<lambda>i. v ! i) (argsort v))"
  by (simp add: sorts_indices_def)

lemma sorts_indices_set: "sorts_indices argsort \<Longrightarrow> set (argsort v) = {0..<length v}"
proof -
  assume "sorts_indices argsort"
  then have "set_mset (mset (argsort v)) = set_mset (mset [0..<length v])"
    by (simp only: sorts_indices_mset)
  then show ?thesis by simp
qed

lemma sorts_indices_length: "sorts_indices argsort \<Longrightarrow> length (argsort v) = length v"
proof -
  assume "sorts_indices argsort"
  then have "size (mset (argsort v)) = size (mset [0..<length v])"
    by (simp only: sorts_indices_mset)
  then show ?thesis by simp
qed

lemma order_descending:
  "sorts_indices argsort \<Longrightarrow>
     sorted_wrt (\<lambda>a b. b \<le> a) (map (\<lambda>i. v ! i) (rev (argsort v)))"
  using sorts_indices_sorted [of argsort v] by (simp add: rev_map [symmetric] sorted_wrt_rev)

lemma order_mset: "sorts_indices argsort \<Longrightarrow> mset (rev (argsort v)) = mset [0..<length v]"
  by (simp add: sorts_indices_mset)

lemma stable_argsort_sorts: "sorts_indices stable_argsort"
  by (simp add: sorts_indices_def stable_argsort_def)

lemma reverse_ties_argsort_sorts: "sorts_indices reverse_ties_argsort"
  by (simp add: sorts_indices_def reverse_ties_argsort_def)

text \<open>The sort only compares keys: a key that compares the same way sorts the same way.\<close>

lemma insort_key_cong_set:
  assumes "\<And>a b. a \<in> insert x (set xs) \<Longrightarrow> b \<in> insert x (set xs) \<Longrightarrow> (g a \<le> g b) = (f a \<le> f b)"
  shows "insort_key g x xs = insort_key f x xs"
  using assms by (induction xs) auto

lemma sort_key_cong_set:
  assumes "\<And>a b. a \<in> set xs \<Longrightarrow> b \<in> set xs \<Longrightarrow> (g a \<le> g b) = (f a \<le> f b)"
  shows "sort_key g xs = sort_key f xs"
  using assms
proof (induction xs)
  case Nil
  then show ?case by simp
next
  case (Cons x xs)
  have ih: "sort_key g xs = sort_key f xs"
    using Cons by simp
  have "insort_key g x (sort_key f xs) = insort_key f x (sort_key f xs)"
    by (rule insort_key_cong_set) (use Cons.prems in auto)
  with ih show ?case by simp
qed

lemma stable_argsort_compares: "compares_only stable_argsort"
  unfolding compares_only_def stable_argsort_def
proof (intro allI impI)
  fix v w :: "real list"
  assume h: "length v = length w
     \<and> (\<forall>i<length v. \<forall>j<length v. (v ! i \<le> v ! j) = (w ! i \<le> w ! j))"
  then have "sort_key (\<lambda>i. v ! i) [0..<length v] = sort_key (\<lambda>i. w ! i) [0..<length v]"
    by (intro sort_key_cong_set) simp
  with h show "sort_key (\<lambda>i. v ! i) [0..<length v] = sort_key (\<lambda>i. w ! i) [0..<length w]"
    by simp
qed

lemma compares_only_strict_mono:
  fixes f :: "real \<Rightarrow> real"
  assumes "compares_only argsort" and "strict_mono f"
  shows "argsort (map f v) = argsort v"
proof -
  have "length (map f v) = length v
     \<and> (\<forall>i<length (map f v). \<forall>j<length (map f v).
           (map f v ! i \<le> map f v ! j) = (v ! i \<le> v ! j))"
    by (simp add: strict_mono_less_eq [OF assms(2)])
  with assms(1) show ?thesis
    unfolding compares_only_def by blast
qed

section \<open>Slices, takes and gains\<close>

lemma zip_sum_nth:
  "sum_list (map (\<lambda>(g, d). g / d) (zip (map f xs) (map h [0..<length xs])))
     = (\<Sum>i<length xs. (f (xs ! i) :: real) / h i)"
proof -
  have "zip (map f xs) (map h [0..<length xs]) = map (\<lambda>i. (f (xs ! i), h i)) [0..<length xs]"
    by (rule nth_equalityI) simp_all
  then have "sum_list (map (\<lambda>(g, d). g / d) (zip (map f xs) (map h [0..<length xs])))
      = sum_list (map (\<lambda>i. f (xs ! i) / h i) [0..<length xs])"
    by (simp add: comp_def)
  also have "\<dots> = (\<Sum>i<length xs. f (xs ! i) / h i)"
    by (simp add: interv_sum_list_conv_sum_set_nat atLeast0LessThan)
  finally show ?thesis .
qed

lemma slice_to_min:
  "0 < k \<Longrightarrow> length xs = n \<Longrightarrow> slice_to xs (min (int n) k) = take (min (nat k) n) xs"
  by (auto simp: slice_to_def min_def)

lemma slice_to_subset: "set (slice_to xs k) \<subseteq> set xs"
  by (auto simp: slice_to_def dest: in_set_takeD)

lemma np_take_ok:
  "set idx \<subseteq> {0..<length v} \<Longrightarrow> np_take v idx = Inr (map (\<lambda>i. v ! i) idx)"
  by (auto simp: np_take_def list_all_iff)

lemma take_labels_ok:
  assumes "set idx \<subseteq> {0..<length (label_values y)}"
  shows "\<exists>t. take_labels y idx = Inr t
           \<and> label_values t = map (\<lambda>i. label_values y ! i) idx
           \<and> (int_labels_nonneg y \<longrightarrow> int_labels_nonneg t)"
proof (cases y)
  case (Ints ys)
  with assms have sub: "set idx \<subseteq> {0..<length ys}" by simp
  then have "take_labels y idx = Inr (Ints (map (\<lambda>i. ys ! i) idx))"
    by (simp add: Ints np_take_ok)
  moreover have "label_values (Ints (map (\<lambda>i. ys ! i) idx)) = map (\<lambda>i. label_values y ! i) idx"
    using sub by (auto simp: Ints)
  moreover have "int_labels_nonneg y \<longrightarrow> int_labels_nonneg (Ints (map (\<lambda>i. ys ! i) idx))"
    using sub by (auto simp: Ints list_all_iff)
  ultimately show ?thesis by blast
next
  case (Floats ys)
  with assms have "set idx \<subseteq> {0..<length ys}" by simp
  then have "take_labels y idx = Inr (Floats (map (\<lambda>i. ys ! i) idx))"
    by (simp add: Floats np_take_ok)
  then show ?thesis by (simp add: Floats)
qed

text \<open>Up to the label 63 the 64-bit gain is the exact one.\<close>

lemma wrap64_id: "- (2 ^ 63) \<le> i \<Longrightarrow> i < 2 ^ 63 \<Longrightarrow> wrap64 i = i"
  by (simp add: wrap64_def)

lemma wrap64_minus_one: "wrap64 (wrap64 a - 1) = wrap64 (a - 1)"
proof -
  have "(wrap64 a - 1 + 2 ^ 63) mod 2 ^ 64 = (a - 1 + 2 ^ 63) mod (2 ^ 64 :: int)"
    unfolding wrap64_def by (simp add: mod_simps algebra_simps)
  then show ?thesis by (simp add: wrap64_def)
qed

lemma int_gain_exact:
  assumes "0 \<le> y" and "y \<le> 63"
  shows "real_of_int (wrap64 (wrap64 (2 ^ nat y) - 1)) = 2 powr real_of_int y - 1"
proof -
  define p :: int where "p = 2 ^ nat y"
  have "nat y \<le> 63" using assms by simp
  then have "(2::int) ^ nat y \<le> 2 ^ 63"
    by (intro power_increasing) simp_all
  then have hi: "p - 1 < 2 ^ 63" by (simp add: p_def)
  have "1 \<le> p" by (simp add: p_def)
  then have lo: "- (2 ^ 63) \<le> p - 1" by simp
  from lo hi have "wrap64 (p - 1) = p - 1"
    by (rule wrap64_id)
  then have "real_of_int (wrap64 (wrap64 p - 1)) = real_of_int p - 1"
    by (simp add: wrap64_minus_one)
  also have "real_of_int p = 2 ^ nat y"
    by (simp add: p_def)
  also have "(2::real) ^ nat y = 2 powr real (nat y)"
    by (simp add: powr_realpow)
  also have "real (nat y) = real_of_int y"
    using assms by simp
  finally show ?thesis by (simp add: p_def)
qed

lemma gains_of_in_range:
  assumes "\<forall>y\<in>set (label_values t). 0 \<le> y \<and> y \<le> 63"
  shows "gains_of t = Inr (map (\<lambda>y. 2 powr y - 1) (label_values t))"
proof (cases t)
  case (Ints ys)
  with assms have r: "\<forall>y\<in>set ys. 0 \<le> y \<and> y \<le> 63" by auto
  then have "\<not> list_ex (\<lambda>y. y < 0) ys"
    by (auto simp: list_ex_iff)
  moreover have "map (\<lambda>y. real_of_int (wrap64 (wrap64 (2 ^ nat y) - 1))) ys
      = map (\<lambda>y. 2 powr y - 1) (map real_of_int ys)"
    using r by (simp add: int_gain_exact)
  ultimately show ?thesis by (simp add: Ints)
next
  case (Floats ys)
  then show ?thesis by simp
qed

lemma gains_of_returns:
  "int_labels_nonneg t \<Longrightarrow> \<exists>g. gains_of t = Inr g"
  by (cases t) (auto simp: list_all_iff list_ex_iff)

section \<open>The metrics as sums\<close>

lemma dcg_score_sum:
  assumes len: "length (label_values y_true) = length y_score" and k: "0 < k"
    and srt: "sorts_indices argsort"
    and range: "\<forall>y\<in>set (label_values y_true). 0 \<le> y \<and> y \<le> 63"
  shows "dcg_score argsort y_true y_score k =
     Inr (\<Sum>i<min (nat k) (length (label_values y_true)).
            (2 powr (label_values y_true ! (rev (argsort y_score) ! i)) - 1) / log 2 (real i + 2))"
proof -
  let ?vals = "label_values y_true"
  let ?order = "rev (argsort y_score)"
  let ?m = "min (nat k) (length ?vals)"
  have lo: "length ?order = length ?vals"
    by (simp add: sorts_indices_length [OF srt] len)
  have sl: "slice_to ?order (min (int (length ?vals)) k) = take ?m ?order"
    using k lo by (rule slice_to_min)
  have "set (take ?m ?order) \<subseteq> set ?order"
    by (rule set_take_subset)
  then have sub: "set (take ?m ?order) \<subseteq> {0..<length ?vals}"
    by (simp add: sorts_indices_set [OF srt] len)
  from take_labels_ok [OF sub] obtain t
    where tk: "take_labels y_true (take ?m ?order) = Inr t"
      and tv: "label_values t = map (\<lambda>i. ?vals ! i) (take ?m ?order)"
    by blast
  have "\<forall>y\<in>set (label_values t). 0 \<le> y \<and> y \<le> 63"
    unfolding tv using sub range by auto
  then have gn: "gains_of t = Inr (map (\<lambda>y. 2 powr y - 1) (label_values t))"
    by (rule gains_of_in_range)
  have lt: "length (take ?m ?order) = ?m"
    using lo by simp
  have "dcg_score argsort y_true y_score k =
      Inr (sum_list (map (\<lambda>(g, d). g / d)
        (zip (map (\<lambda>y. 2 powr y - 1) (label_values t))
             (map (\<lambda>i. log 2 (real i + 2)) [0..<length (label_values t)]))))"
    unfolding dcg_score_def Let_def sl tk sum.case gn ..
  also have "\<dots> = Inr (\<Sum>i<length (label_values t).
      (2 powr (label_values t ! i) - 1) / log 2 (real i + 2))"
    by (simp only: zip_sum_nth)
  also have "\<dots> = Inr (\<Sum>i<?m. (2 powr (?vals ! (?order ! i)) - 1) / log 2 (real i + 2))"
    unfolding tv using lt by simp
  finally show ?thesis .
qed

text \<open>With vectors of one length no index is out of range, whatever the cutoff.\<close>

lemma dcg_score_returns:
  assumes "length (label_values y_true) = length y_score" and "sorts_indices argsort"
    and "int_labels_nonneg y_true"
  shows "\<exists>d. dcg_score argsort y_true y_score k = Inr d"
proof -
  let ?idx = "slice_to (rev (argsort y_score)) (min (int (length (label_values y_true))) k)"
  have "set ?idx \<subseteq> set (rev (argsort y_score))"
    by (rule slice_to_subset)
  then have "set ?idx \<subseteq> {0..<length (label_values y_true)}"
    by (simp add: sorts_indices_set [OF assms(2)] assms(1))
  from take_labels_ok [OF this] assms(3) obtain t
    where tk: "take_labels y_true ?idx = Inr t" and "int_labels_nonneg t"
    by blast
  then obtain g where "gains_of t = Inr g"
    using gains_of_returns by blast
  with tk show ?thesis
    by (simp add: dcg_score_def Let_def)
qed


text \<open>Summing a vector along a permutation of its indices.\<close>

lemma sum_list_perm_nth:
  assumes "mset idx = mset [0..<length v]"
  shows "sum_list (map (\<lambda>i. v ! i) idx) = sum_list (v :: 'a::comm_monoid_add list)"
proof -
  have "mset (map (\<lambda>i. v ! i) idx) = image_mset (\<lambda>i. v ! i) (mset [0..<length v])"
    unfolding mset_map assms ..
  also have "\<dots> = mset (map (\<lambda>i. v ! i) [0..<length v])" unfolding mset_map ..
  also have "\<dots> = mset v" by (simp add: map_nth)
  finally have "mset (map (\<lambda>i. v ! i) idx) = mset v" .
  then show ?thesis by (metis sum_mset_sum_list)
qed

lemma zip_rr_sum:
  "sum_list (map (\<lambda>(y, i). y / (real i + 1)) (zip xs [0..<length xs]))
     = (\<Sum>i<length xs. (xs ! i :: real) / (real i + 1))"
proof -
  have "zip xs [0..<length xs] = map (\<lambda>i. (xs ! i, i)) [0..<length xs]"
    by (rule nth_equalityI) simp_all
  then have "sum_list (map (\<lambda>(y, i). y / (real i + 1)) (zip xs [0..<length xs]))
      = sum_list (map (\<lambda>i. xs ! i / (real i + 1)) [0..<length xs])"
    by (simp add: comp_def)
  also have "\<dots> = (\<Sum>i<length xs. xs ! i / (real i + 1))"
    by (simp add: interv_sum_list_conv_sum_set_nat atLeast0LessThan)
  finally show ?thesis .
qed

text \<open>The total of the labels taken along a permutation is the total of the labels.\<close>

lemma take_labels_sum:
  assumes "mset idx = mset [0..<length (label_values y)]" and "take_labels y idx = Inr t"
  shows "np_sum t = np_sum y"
proof (cases y)
  case (Ints ys)
  from assms(1) have m: "mset idx = mset [0..<length ys]" by (simp add: Ints)
  then have "set_mset (mset idx) = set_mset (mset [0..<length ys])" by simp
  then have "set idx \<subseteq> {0..<length ys}" by simp
  then have "take_labels y idx = Inr (Ints (map (\<lambda>i. ys ! i) idx))"
    by (simp add: Ints np_take_ok)
  with assms(2) have "t = Ints (map (\<lambda>i. ys ! i) idx)" by simp
  then show ?thesis
    by (simp add: Ints sum_list_perm_nth [OF m])
next
  case (Floats ys)
  from assms(1) have m: "mset idx = mset [0..<length ys]" by (simp add: Floats)
  then have "set_mset (mset idx) = set_mset (mset [0..<length ys])" by simp
  then have "set idx \<subseteq> {0..<length ys}" by simp
  then have "take_labels y idx = Inr (Floats (map (\<lambda>i. ys ! i) idx))"
    by (simp add: Floats np_take_ok)
  with assms(2) have "t = Floats (map (\<lambda>i. ys ! i) idx)" by simp
  then show ?thesis
    by (simp add: Floats sum_list_perm_nth [OF m])
qed

lemma of_int_sum_list: "sum_list (map real_of_int ys) = real_of_int (sum_list ys)"
  by (induction ys) simp_all

lemma np_sum_in_range:
  assumes "\<forall>ys. y = Ints ys \<longrightarrow> - (2 ^ 63) \<le> sum_list ys \<and> sum_list ys < 2 ^ 63"
  shows "np_sum y = sum_list (label_values y)"
proof (cases y)
  case (Ints ys)
  with assms have "- (2 ^ 63) \<le> sum_list ys" "sum_list ys < 2 ^ 63" by simp_all
  then have "wrap64 (sum_list ys) = sum_list ys" by (rule wrap64_id)
  then show ?thesis by (simp add: Ints of_int_sum_list)
next
  case (Floats ys)
  then show ?thesis by simp
qed

lemma mrr_score_sum:
  assumes len: "length (label_values y_true) = length y_score" and srt: "sorts_indices argsort"
  shows "mrr_score argsort y_true y_score =
     Inr (fdiv (\<Sum>i<length (label_values y_true).
                  label_values y_true ! (rev (argsort y_score) ! i) / (real i + 1))
               (np_sum y_true))"
proof -
  let ?vals = "label_values y_true"
  let ?order = "rev (argsort y_score)"
  have lo: "length ?order = length ?vals"
    by (simp add: sorts_indices_length [OF srt] len)
  have sub: "set ?order \<subseteq> {0..<length ?vals}"
    by (simp add: sorts_indices_set [OF srt] len)
  from take_labels_ok [OF sub] obtain t
    where tk: "take_labels y_true ?order = Inr t"
      and tv: "label_values t = map (\<lambda>i. ?vals ! i) ?order"
    by blast
  have "mset ?order = mset [0..<length ?vals]"
    by (simp add: sorts_indices_mset [OF srt] len)
  then have tot: "np_sum t = np_sum y_true"
    using tk by (rule take_labels_sum)
  have "(\<Sum>i<length (label_values t). label_values t ! i / (real i + 1))
      = (\<Sum>i<length ?vals. ?vals ! (?order ! i) / (real i + 1))"
    unfolding tv using lo by simp
  then show ?thesis
    unfolding mrr_score_def Let_def tk sum.case zip_rr_sum tot by simp
qed

text \<open>The search loop of \<open>hit_score\<close>.\<close>

lemma hit_loop_iff: "hit_loop idxs gt = (if \<exists>i\<in>set idxs. i \<in> set gt then 1 else 0)"
  by (induction idxs) auto

lemma where_eq_one_set: "set (where_eq_one y) = {i. i < length y \<and> y ! i = 1}"
  by (auto simp: where_eq_one_def)

lemma hit_score_iff:
  assumes "length (label_values y_true) = length y_score" and "0 < k"
    and "sorts_indices argsort"
  shows "hit_score argsort y_true y_score k =
      (if \<exists>i\<in>set (take (nat k) (rev (argsort y_score))). label_values y_true ! i = 1
       then 1 else 0)"
proof -
  have sl: "slice_to (rev (argsort y_score)) k = take (nat k) (rev (argsort y_score))"
    using assms(2) by (simp add: slice_to_def)
  have "set (take (nat k) (rev (argsort y_score))) \<subseteq> set (rev (argsort y_score))"
    by (rule set_take_subset)
  then have "\<And>i. i \<in> set (take (nat k) (rev (argsort y_score)))
      \<Longrightarrow> i < length (label_values y_true)"
    using assms(1) by (auto simp: sorts_indices_set [OF assms(3)])
  then show ?thesis
    unfolding hit_score_def Let_def sl hit_loop_iff where_eq_one_set by auto
qed

text \<open>Short sums and short index ranges, written out.\<close>

lemma sum_upto_3: "(\<Sum>i<3. f i) = f 0 + f 1 + f 2" for f :: "nat \<Rightarrow> real"
  by (simp add: numeral_eq_Suc lessThan_Suc)

lemma sum_upto_2: "(\<Sum>i<2. f i) = f 0 + f 1" for f :: "nat \<Rightarrow> real"
  by (simp add: numeral_eq_Suc lessThan_Suc)

lemma sum_upto_1: "(\<Sum>i<1. f i) = f 0" for f :: "nat \<Rightarrow> real"
  by simp

section \<open>Digits, floored division and rounding\<close>

lemma str_nat_digit: "n < 10 \<Longrightarrow> str_nat n = [digit_char n]"
  by (subst str_nat.simps) simp

lemma divmod_example:
  "py_divmod 90061.5 86400 = (1, 3661.5)"
  "py_divmod 3661.5 3600 = (1, 61.5)"
  "py_divmod 61.5 60 = (1, 1.5)"
  by (simp_all add: py_divmod_def)

lemma str_int_one: "str_int (py_int 1) = ''1''"
  by (simp add: py_int_def str_int_def str_nat_digit digit_char_def)

lemma round_example: "round_half_even (\<bar>1.5\<bar> * 100) = 150"
  by (simp add: round_half_even_def)

lemma fmt_example: "fmt_2f 1.5 = ''1.50''"
  unfolding fmt_2f_def round_example Let_def
  by (simp add: str_nat_digit digit_char_def)

lemma format_time_example: "format_time 90061.5 = ''1d 1h 1m 1.50s''"
  unfolding format_time_def divmod_example Let_def prod.case str_int_one fmt_example
  by simp

lemma divmod_range:
  assumes "0 < y"
  shows "0 \<le> snd (py_divmod x y)" "snd (py_divmod x y) < y"
    "x = fst (py_divmod x y) * y + snd (py_divmod x y)"
    "py_int (fst (py_divmod x y)) = \<lfloor>x / y\<rfloor>"
proof -
  let ?q = "\<lfloor>x / y\<rfloor>"
  have "of_int ?q * y \<le> x"
    by (subst pos_le_divide_eq [OF assms, symmetric]) (rule of_int_floor_le)
  then show "0 \<le> snd (py_divmod x y)" by (simp add: py_divmod_def)
  have "x / y < of_int ?q + 1" by linarith
  then have "x < (of_int ?q + 1) * y"
    by (subst (asm) pos_divide_less_eq [OF assms])
  then show "snd (py_divmod x y) < y" by (simp add: py_divmod_def algebra_simps)
  show "x = fst (py_divmod x y) * y + snd (py_divmod x y)" by (simp add: py_divmod_def)
  show "py_int (fst (py_divmod x y)) = \<lfloor>x / y\<rfloor>"
    by (simp add: py_divmod_def py_int_def)
qed

lemma py_int_of_int: "py_int (of_int q) = q"
  by (simp add: py_int_def)

lemma floor_range:
  fixes r :: real
  assumes "0 \<le> r" and "r < of_int n * y" and "0 < y"
  shows "0 \<le> \<lfloor>r / y\<rfloor>" and "\<lfloor>r / y\<rfloor> < n"
proof -
  from assms(1,3) have "0 \<le> r / y" by simp
  then show "0 \<le> \<lfloor>r / y\<rfloor>" by simp
  from assms(2,3) have "r / y < of_int n" by (simp add: pos_divide_less_eq)
  then show "\<lfloor>r / y\<rfloor> < n" by (simp add: floor_less_iff)
qed

lemma round_half_even_near: "\<bar>of_int (round_half_even x) - x\<bar> \<le> 1 / 2"
proof -
  have "of_int \<lfloor>x\<rfloor> \<le> x" "x < of_int \<lfloor>x\<rfloor> + 1" by linarith+
  then show ?thesis
    by (auto simp: round_half_even_def Let_def)
qed

lemma round_half_even_nonneg: "0 \<le> x \<Longrightarrow> 0 \<le> round_half_even x"
  by (auto simp: round_half_even_def Let_def)

text \<open>The digits printed, by their character codes.\<close>

lemma digit_char_ascii: "k < 10 \<Longrightarrow> of_char (digit_char k) = 48 + k"
proof -
  assume "k < 10"
  then have "k \<in> {0, 1, 2, 3, 4, 5, 6, 7, 8, 9}" by auto
  then show ?thesis
    by (elim insertE emptyE) (simp_all add: digit_char_def)
qed

lemma digits_ascii:
  "list_all (\<lambda>k. k < 10) ds \<Longrightarrow> map of_char (map digit_char ds) = map (\<lambda>k. 48 + k) ds"
  by (induction ds) (simp_all add: digit_char_ascii)

lemma str_nat_two:
  assumes "n < 100"
  shows "str_nat n =
    (if n < 10 then [digit_char n] else [digit_char (n div 10), digit_char (n mod 10)])"
proof (cases "n < 10")
  case True
  then show ?thesis by (simp add: str_nat_digit)
next
  case False
  from assms have "n div 10 < 10" by simp
  then have "str_nat (n div 10) = [digit_char (n div 10)]" by (rule str_nat_digit)
  with False show ?thesis by (subst str_nat.simps) simp
qed

lemma str_nat_two_ascii:
  assumes "n < 100"
  shows "map of_char (str_nat n) =
    (if n < 10 then [48 + n] else [48 + n div 10, 48 + n mod 10])"
proof -
  from assms have "n div 10 < 10" "n mod 10 < 10" by simp_all
  then show ?thesis
    by (simp add: str_nat_two [OF assms] digit_char_ascii)
qed

lemma str_nat_decimal:
  "\<exists>ds. str_nat n = map digit_char ds \<and> list_all (\<lambda>k. k < 10) ds \<and> ds \<noteq> []
        \<and> (length ds = 1 \<or> 0 < hd ds) \<and> foldl (\<lambda>a k. 10 * a + k) 0 ds = n"
proof (induction n rule: str_nat.induct)
  case (1 n)
  show ?case
  proof (cases "n < 10")
    case True
    then have "str_nat n = map digit_char [n]" by (simp add: str_nat_digit)
    with True show ?thesis
      by (intro exI [of _ "[n]"]) simp
  next
    case False
    from "1.IH" [OF False] obtain ds
      where ds: "str_nat (n div 10) = map digit_char ds" "list_all (\<lambda>k. k < 10) ds" "ds \<noteq> []"
        "length ds = 1 \<or> 0 < hd ds" "foldl (\<lambda>a k. 10 * a + k) 0 ds = n div 10"
      by blast
    have pos: "0 < hd ds"
    proof (cases "length ds = 1")
      case True
      then obtain x where x: "ds = [x]" by (cases ds) simp_all
      with ds(5) have "x = n div 10" by simp
      with False x show ?thesis by simp
    next
      case False
      with ds(4) show ?thesis by simp
    qed
    have s: "str_nat n = map digit_char (ds @ [n mod 10])"
      using False ds(1) by (subst str_nat.simps) simp
    have "foldl (\<lambda>a k. 10 * a + k) 0 (ds @ [n mod 10]) = n"
      using ds(5) by simp
    moreover have "hd (ds @ [n mod 10]) = hd ds" using ds(3) by simp
    ultimately show ?thesis
      using s ds(2) pos by (intro exI [of _ "ds @ [n mod 10]"]) simp
  qed
qed

lemma str_int_decimal:
  "\<exists>ds. map of_char (str_int d) = (if d < 0 then map of_char ''-'' else []) @ map (\<lambda>k. 48 + k) ds
        \<and> list_all (\<lambda>k. k < 10) ds \<and> ds \<noteq> []
        \<and> (length ds = 1 \<or> 0 < hd ds) \<and> foldl (\<lambda>a k. 10 * a + k) 0 ds = nat \<bar>d\<bar>"
proof -
  from str_nat_decimal [of "nat \<bar>d\<bar>"] obtain ds
    where ds: "str_nat (nat \<bar>d\<bar>) = map digit_char ds" "list_all (\<lambda>k. k < 10) ds" "ds \<noteq> []"
      "length ds = 1 \<or> 0 < hd ds" "foldl (\<lambda>a k. 10 * a + k) 0 ds = nat \<bar>d\<bar>"
    by blast
  have "str_int d = (if d < 0 then ''-'' else []) @ str_nat (nat \<bar>d\<bar>)"
    by (simp add: str_int_def)
  moreover have "map of_char (str_nat (nat \<bar>d\<bar>)) = map (\<lambda>k. 48 + k) ds"
    unfolding ds(1) using ds(2) by (rule digits_ascii)
  ultimately have "map of_char (str_int d)
      = (if d < 0 then map of_char ''-'' else []) @ map (\<lambda>k. 48 + k) ds"
    by (simp only: map_append if_distrib [of "map of_char"] list.map)
  with ds(2-5) show ?thesis by blast
qed

lemma round_half_even_tie:
  "\<bar>of_int (round_half_even x) - x\<bar> < 1 / 2 \<or> even (round_half_even x)"
proof -
  have "of_int \<lfloor>x\<rfloor> \<le> x" "x < of_int \<lfloor>x\<rfloor> + 1" by linarith+
  then show ?thesis
    by (auto simp: round_half_even_def Let_def)
qed

lemma round_half_even_upper: "x < of_int n \<Longrightarrow> round_half_even x \<le> n"
proof -
  assume "x < of_int n"
  then have "\<lfloor>x\<rfloor> < n" by (simp add: floor_less_iff)
  then show ?thesis
    by (auto simp: round_half_even_def Let_def)
qed

text \<open>A second duration, with other digits.\<close>

lemma divmod_example_2:
  "py_divmod 987654.321 86400 = (11, 37254.321)"
  "py_divmod 37254.321 3600 = (10, 1254.321)"
  "py_divmod 1254.321 60 = (20, 54.321)"
  by (simp_all add: py_divmod_def)

lemma str_int_example_2:
  "str_int (py_int 11) = ''11''" "str_int (py_int 10) = ''10''" "str_int (py_int 20) = ''20''"
  by (simp_all add: py_int_def str_int_def str_nat_two digit_char_def)

lemma round_example_2: "round_half_even (\<bar>54.321\<bar> * 100) = 5432"
  by (simp add: round_half_even_def)

lemma fmt_example_2: "fmt_2f 54.321 = ''54.32''"
  unfolding fmt_2f_def round_example_2 Let_def
  by (simp add: str_nat_two digit_char_def)

lemma format_time_example_2: "format_time 987654.321 = ''11d 10h 20m 54.32s''"
  unfolding format_time_def divmod_example_2 Let_def prod.case str_int_example_2 fmt_example_2
  by simp

section \<open>The two loops of the padding\<close>

lemma promote_at_update: "promote_at arrays i = arrays[i := atleast_2d (arrays ! i)]"
proof (cases "arrays ! i")
  case (Arr1 xs)
  then show ?thesis by (simp add: promote_at_def)
next
  case (Arr2 c rows)
  then have "ndim (arrays ! i) \<noteq> 1" and "atleast_2d (arrays ! i) = arrays ! i"
    by simp_all
  then show ?thesis
    unfolding promote_at_def by (simp only: list_update_id if_False)
qed

lemma promote_prefix:
  "k \<le> length arrays \<Longrightarrow>
     foldl promote_at arrays [0..<k] = map atleast_2d (take k arrays) @ drop k arrays"
proof (induction k)
  case 0
  then show ?case by simp
next
  case (Suc k)
  then have k: "k < length arrays" by simp
  let ?done = "map atleast_2d (take k arrays)"
  have len: "length ?done = k" using k by simp
  have ih: "foldl promote_at arrays [0..<k] = ?done @ drop k arrays"
    using Suc by simp
  have at: "(?done @ drop k arrays) ! k = arrays ! k"
    using k by (simp add: nth_append)
  have "foldl promote_at arrays [0..<Suc k] = promote_at (?done @ drop k arrays) k"
    by (simp add: ih)
  also have "\<dots> = (?done @ drop k arrays)[k := atleast_2d (arrays ! k)]"
    by (simp only: promote_at_update at)
  also have "\<dots> = ?done @ (drop k arrays)[0 := atleast_2d (arrays ! k)]"
    using len by (simp add: list_update_append)
  also have "drop k arrays = arrays ! k # drop (Suc k) arrays"
    using k by (rule Cons_nth_drop_Suc [symmetric])
  also have "?done @ (arrays ! k # drop (Suc k) arrays)[0 := atleast_2d (arrays ! k)]
      = map atleast_2d (take (Suc k) arrays) @ drop (Suc k) arrays"
    using k by (simp add: take_Suc_conv_app_nth)
  finally show ?case .
qed

lemma promote_loop_map: "promote_loop arrays = map atleast_2d arrays"
  by (simp add: promote_loop_def promote_prefix)

lemma py_max_Max: "cs \<noteq> [] \<Longrightarrow> py_max cs = Inr (Max (set cs))"
proof (cases cs)
  case Nil
  assume "cs \<noteq> []"
  with Nil show ?thesis by simp
next
  case (Cons c rest)
  have "fold max rest c = Max (set (c # rest))"
    by (rule Max.set_eq_fold [symmetric])
  with Cons show ?thesis by (simp only: py_max.simps)
qed

lemma pad_array_2d:
  assumes wf: "wf_array (Arr2 c rows)" and le: "c \<le> m"
  shows "pad_array m pv (Arr2 c rows) =
           Inr (Arr2 m (map (\<lambda>r. r @ replicate (m - length r) pv) rows))"
proof -
  have lens: "\<And>r. r \<in> set rows \<Longrightarrow> length r = c"
    using wf by (simp add: list_all_iff)
  have z: "map (\<lambda>(r, r'). r @ r') (zip rows (replicate (length rows) p)) = map (\<lambda>r. r @ p) rows"
    for p :: "'a list"
    by (induction rows) simp_all
  have same: "map (\<lambda>r. r @ replicate (m - c) pv) rows
      = map (\<lambda>r. r @ replicate (m - length r) pv) rows"
    using lens by simp
  show ?thesis
  proof (cases "c < m")
    case True
    then show ?thesis
      by (simp add: pad_array_def np_full_def z same)
  next
    case False
    with le have "c = m" by simp
    then show ?thesis
      using lens by (simp add: pad_array_def map_idI)
  qed
qed

lemma pad_loop_2d:
  assumes "\<And>a. a \<in> set as \<Longrightarrow> ndim a = 2 \<and> wf_array a \<and> shape_last a \<le> m"
  shows "pad_loop m pv as =
           Inr (map (\<lambda>a. Arr2 m (map (\<lambda>r. r @ replicate (m - length r) pv) (rows_of a))) as)"
  using assms
proof (induction as)
  case Nil
  then show ?case by simp
next
  case (Cons a as)
  from Cons.prems [of a] have a: "ndim a = 2" "wf_array a" "shape_last a \<le> m" by simp_all
  then obtain c rows where eq: "a = Arr2 c rows" by (cases a) simp_all
  have pa: "pad_array m pv a = Inr (Arr2 m (map (\<lambda>r. r @ replicate (m - length r) pv) (rows_of a)))"
    using a unfolding eq by (simp add: pad_array_2d)
  have "pad_loop m pv as =
      Inr (map (\<lambda>a. Arr2 m (map (\<lambda>r. r @ replicate (m - length r) pv) (rows_of a))) as)"
    by (rule Cons.IH) (simp add: Cons.prems)
  with pa show ?case by simp
qed

lemma vstack_same_cols:
  assumes "as \<noteq> []" and "\<And>a. a \<in> set as \<Longrightarrow> shape_last a = m"
  shows "vstack as = Inr (Arr2 m (concat (map rows_of as)))"
  using assms by (cases as) (auto simp: list_all_iff)

lemma atleast_2d_props:
  "ndim (atleast_2d a) = 2" "shape_last (atleast_2d a) = shape_last a"
  "rows_of (atleast_2d a) = rows_of a" "wf_array a \<Longrightarrow> wf_array (atleast_2d a)"
  by (cases a; simp)+

lemma pad_and_stack_result:
  assumes ne: "arrays \<noteq> []" and wf: "\<And>a. a \<in> set arrays \<Longrightarrow> wf_array a"
  shows "snd (pad_and_stack arrays pv) =
     Inr (Arr2 (Max (shape_last ` set arrays))
        (concat (map (\<lambda>a. map (\<lambda>r. r @ replicate (Max (shape_last ` set arrays) - length r) pv)
                              (rows_of a)) arrays)))"
proof -
  let ?m = "Max (shape_last ` set arrays)"
  let ?arrays' = "map atleast_2d arrays"
  let ?pad = "\<lambda>a. Arr2 ?m (map (\<lambda>r. r @ replicate (?m - length r) pv) (rows_of a))"
  have cols: "map shape_last ?arrays' = map shape_last arrays"
    by (simp add: atleast_2d_props)
  have mx: "py_max (map shape_last ?arrays') = Inr ?m"
    unfolding cols using ne by (simp add: py_max_Max)
  have "pad_loop ?m pv ?arrays' = Inr (map ?pad ?arrays')"
  proof (rule pad_loop_2d)
    fix a assume "a \<in> set ?arrays'"
    then obtain b where b: "b \<in> set arrays" "a = atleast_2d b" by auto
    from b(1) have "shape_last b \<le> ?m" by simp
    with b wf [OF b(1)] show "ndim a = 2 \<and> wf_array a \<and> shape_last a \<le> ?m"
      by (simp add: atleast_2d_props)
  qed
  also have "map ?pad ?arrays' = map ?pad arrays"
    by (simp add: atleast_2d_props)
  finally have pl: "pad_loop ?m pv ?arrays' = Inr (map ?pad arrays)" .
  have vs: "vstack (map ?pad arrays) = Inr (Arr2 ?m (concat (map rows_of (map ?pad arrays))))"
    by (rule vstack_same_cols) (use ne in auto)
  have "concat (map rows_of (map ?pad arrays))
      = concat (map (\<lambda>a. map (\<lambda>r. r @ replicate (?m - length r) pv) (rows_of a)) arrays)"
    by (simp add: comp_def)
  with vs have "vstack (map ?pad arrays) =
      Inr (Arr2 ?m (concat (map (\<lambda>a. map (\<lambda>r. r @ replicate (?m - length r) pv) (rows_of a)) arrays)))"
    by simp
  moreover have "snd (pad_and_stack arrays pv) = vstack (map ?pad arrays)"
    unfolding pad_and_stack_def promote_loop_map Let_def snd_conv mx
    by (simp only: sum.case pl)
  ultimately show ?thesis by simp
qed

lemma pad_and_stack_example:
  "pad_and_stack [Arr1 [1, 2], Arr1 [3, 4, 5::int]] 0
     = ([Arr2 2 [[1, 2]], Arr2 3 [[3, 4, 5]]], Inr (Arr2 3 [[1, 2, 0], [3, 4, 5]]))"
  by (simp add: pad_and_stack_def promote_loop_map pad_array_def np_full_def)

lemma rows_of_length: "wf_array a \<Longrightarrow> r \<in> set (rows_of a) \<Longrightarrow> length r = shape_last a"
  by (cases a) (auto simp: list_all_iff)

section \<open>Discounted cumulative gain\<close>

text \<open>
  C1.  A label of 64 in an integer array makes the 64-bit power \<open>2 ** 64\<close> wrap to 0:
  \<open>dcg_score\<close> returns \<open>-1\<close>, where \<open>(2 ^ 64 - 1) / log2 2\<close> is
  \<open>18446744073709551615\<close>.  A negative label in an integer array makes the power
  raise.
\<close>

theorem dcg_score_int_label_counterexample:
  "dcg_score stable_argsort (Ints [64]) [1 / 2] 1 = Inr (- 1)
   \<and> (2 powr 64 - 1) / log 2 (real 0 + 2) = (18446744073709551615::real)
   \<and> dcg_score stable_argsort (Ints [- 1]) [1 / 2] 1 = Inl ValueError"
proof -
  have "dcg_score stable_argsort (Ints [64]) [1 / 2] 1 = Inr (- 1)"
    by (simp add: dcg_score_def stable_argsort_def slice_to_def np_take_def wrap64_def)
  moreover have "(2 powr 64 - 1) / log 2 (real 0 + 2) = (18446744073709551615::real)"
    by simp
  moreover have "dcg_score stable_argsort (Ints [- 1]) [1 / 2] 1 = Inl ValueError"
    by (simp add: dcg_score_def stable_argsort_def slice_to_def np_take_def)
  ultimately show ?thesis by blast
qed

text \<open>
  C1, amended.  For a ground-truth vector whose labels all lie between 0 and 63, a score
  vector of the same length and a positive cutoff \<open>k\<close>, \<open>dcg_score\<close> orders the
  candidate indices by descending score (the order is a permutation of all indices, and
  the scores do not increase along it; equal scores come in the order the sort gives
  them), keeps the first \<open>min k length\<close> of them, and returns the sum over the kept
  positions \<open>i\<close> (counted from zero) of \<open>(2 ^ relevance - 1) / log2 (i + 2)\<close>, the
  relevance being the ground-truth value at the index in position \<open>i\<close>.
\<close>

theorem dcg_score_top_k_sum:
  assumes "length (label_values y_true) = length y_score" and "0 < k"
    and "sorts_indices argsort"
    and "\<forall>y\<in>set (label_values y_true). 0 \<le> y \<and> y \<le> 63"
  shows "mset (rev (argsort y_score)) = mset [0..<length y_score]
       \<and> sorted_wrt (\<lambda>a b. b \<le> a) (map (\<lambda>i. y_score ! i) (rev (argsort y_score)))
       \<and> dcg_score argsort y_true y_score k =
           Inr (\<Sum>i<min (nat k) (length (label_values y_true)).
                  (2 powr (label_values y_true ! (rev (argsort y_score) ! i)) - 1)
                    / log 2 (real i + 2))"
  using assms order_mset [of argsort y_score] order_descending [of argsort y_score]
    dcg_score_sum [of y_true y_score k argsort]
  by simp

theorem dcg_score_top_k_sum_witness:
  "length (label_values (Floats [3, 2, 0, 0, 1])) = length [0.1, 0.4, 0.3, 0.2, 0.5::real]
   \<and> (0::int) < 5 \<and> sorts_indices stable_argsort
   \<and> set (label_values (Floats [3, 2, 0, 0, 1])) \<subseteq> {0..63}
   \<and> dcg_score stable_argsort (Floats [3, 2, 0, 0, 1]) [0.1, 0.4, 0.3, 0.2, 0.5] 5
       = Inr (1 + 3 / log 2 3 + 7 / log 2 6)
   \<and> length (label_values (Ints [1, 0, 0, 0])) = length [2, 2, 1, 1::real]
   \<and> (0::int) < 1 \<and> sorts_indices reverse_ties_argsort
   \<and> set (label_values (Ints [1, 0, 0, 0])) \<subseteq> {0..63}
   \<and> dcg_score reverse_ties_argsort (Ints [1, 0, 0, 0]) [2, 2, 1, 1] 1 = Inr 1"
proof -
  let ?f = "Floats [3, 2, 0, 0, 1]"
  let ?s = "[0.1, 0.4, 0.3, 0.2, 0.5::real]"
  have h1: "length (label_values ?f) = length ?s" by simp
  have h2: "(0::int) < 5" by simp
  have h3: "\<forall>y\<in>set (label_values ?f). 0 \<le> y \<and> y \<le> 63" by simp
  have a: "rev (stable_argsort ?s) = [4, 1, 2, 3, 0]"
    by (simp add: stable_argsort_def upt_rec [of _ "numeral _"] upt_rec [of _ "Suc _"])
  have s: "\<And>f :: nat \<Rightarrow> real. (\<Sum>i<5. f i) = f 0 + f 1 + f 2 + f 3 + f 4"
    by (simp add: numeral_eq_Suc lessThan_Suc)
  have n: "min (nat 5) (length (label_values ?f)) = 5" by simp
  have p: "(2::real) powr 3 = 8" "(2::real) powr 2 = 4" by simp_all
  from dcg_score_top_k_sum [OF h1 h2 stable_argsort_sorts h3]
  have "dcg_score stable_argsort ?f ?s 5 =
     Inr (\<Sum>i<min (nat 5) (length (label_values ?f)).
            (2 powr (label_values ?f ! (rev (stable_argsort ?s) ! i)) - 1)
              / log 2 (real i + 2))"
    by blast
  then have r1: "dcg_score stable_argsort ?f ?s 5 = Inr (1 + 3 / log 2 3 + 7 / log 2 6)"
    unfolding a n s by (simp add: p)
  let ?g = "Ints [1, 0, 0, 0]"
  let ?t = "[2, 2, 1, 1::real]"
  have g1: "length (label_values ?g) = length ?t" by simp
  have g2: "(0::int) < 1" by simp
  have g3: "\<forall>y\<in>set (label_values ?g). 0 \<le> y \<and> y \<le> 63" by simp
  have b: "rev (reverse_ties_argsort ?t) = [0, 1, 2, 3]"
    by (simp add: reverse_ties_argsort_def upt_rec [of _ "numeral _"] upt_rec [of _ "Suc _"])
  have m: "min (nat 1) (length (label_values ?g)) = 1" by simp
  from dcg_score_top_k_sum [OF g1 g2 reverse_ties_argsort_sorts g3]
  have "dcg_score reverse_ties_argsort ?g ?t 1 =
     Inr (\<Sum>i<min (nat 1) (length (label_values ?g)).
            (2 powr (label_values ?g ! (rev (reverse_ties_argsort ?t) ! i)) - 1)
              / log 2 (real i + 2))"
    by blast
  then have r2: "dcg_score reverse_ties_argsort ?g ?t 1 = Inr 1"
    unfolding b m sum_upto_1 by simp
  have c1: "set (label_values ?f) \<subseteq> {0..63}" and c2: "set (label_values ?g) \<subseteq> {0..63}"
    by simp_all
  from h1 h2 stable_argsort_sorts c1 r1 g1 g2 reverse_ties_argsort_sorts c2 r2
  show ?thesis by blast
qed

section \<open>Normalised DCG\<close>

text \<open>
  C2.  For vectors of the same length and a positive cutoff, \<open>ndcg_score\<close> is the
  quotient of \<open>dcg_score y_true y_score k\<close> by \<open>dcg_score y_true y_true k\<close>, the
  second call ranking the ground truth by itself; the quotient is the ordinary one
  whenever the divisor is not zero.  Both calls return unless an integer array holds a
  negative label.
\<close>

theorem ndcg_score_ratio:
  assumes "length (label_values y_true) = length y_score" and "0 < k"
    and "sorts_indices argsort"
  shows "(int_labels_nonneg y_true \<longrightarrow>
           (\<exists>actual best.
               dcg_score argsort y_true y_score k = Inr actual
             \<and> dcg_score argsort y_true (label_values y_true) k = Inr best
             \<and> ndcg_score argsort y_true y_score k = Inr (fdiv actual best)
             \<and> (best \<noteq> 0 \<longrightarrow>
                  ndcg_score argsort y_true y_score k = Inr (Finite (actual / best)))))
       \<and> (\<forall>actual best.
             dcg_score argsort y_true y_score k = Inr actual
           \<and> dcg_score argsort y_true (label_values y_true) k = Inr best
           \<longrightarrow> ndcg_score argsort y_true y_score k = Inr (fdiv actual best))"
proof (intro conjI impI allI)
  assume nn: "int_labels_nonneg y_true"
  from dcg_score_returns [OF assms(1,3) nn] obtain actual
    where a: "dcg_score argsort y_true y_score k = Inr actual" by blast
  from dcg_score_returns [OF refl assms(3) nn] obtain best
    where b: "dcg_score argsort y_true (label_values y_true) k = Inr best" by blast
  have "ndcg_score argsort y_true y_score k = Inr (fdiv actual best)"
    by (simp add: ndcg_score_def a b)
  moreover have "best \<noteq> 0 \<longrightarrow>
      ndcg_score argsort y_true y_score k = Inr (Finite (actual / best))"
    by (simp add: ndcg_score_def a b fdiv_def)
  ultimately show "\<exists>actual best.
      dcg_score argsort y_true y_score k = Inr actual
    \<and> dcg_score argsort y_true (label_values y_true) k = Inr best
    \<and> ndcg_score argsort y_true y_score k = Inr (fdiv actual best)
    \<and> (best \<noteq> 0 \<longrightarrow> ndcg_score argsort y_true y_score k = Inr (Finite (actual / best)))"
    using a b by blast
next
  fix actual best
  assume "dcg_score argsort y_true y_score k = Inr actual
    \<and> dcg_score argsort y_true (label_values y_true) k = Inr best"
  then show "ndcg_score argsort y_true y_score k = Inr (fdiv actual best)"
    by (simp add: ndcg_score_def)
qed

theorem ndcg_score_ratio_witness:
  "length (label_values (Ints [1, 0])) = length [0.2, 0.9::real] \<and> (0::int) < 2
   \<and> sorts_indices stable_argsort \<and> int_labels_nonneg (Ints [1, 0])
   \<and> dcg_score stable_argsort (Ints [1, 0]) [0.2, 0.9] 2 = Inr (1 / log 2 3)
   \<and> dcg_score stable_argsort (Ints [1, 0]) (label_values (Ints [1, 0])) 2 = Inr 1
   \<and> ndcg_score stable_argsort (Ints [1, 0]) [0.2, 0.9] 2 = Inr (Finite (1 / log 2 3))"
proof -
  let ?g = "Ints [1, 0]"
  have h1: "length (label_values ?g) = length [0.2, 0.9::real]" by simp
  have h2: "(0::int) < 2" by simp
  have h3: "\<forall>y\<in>set (label_values ?g). 0 \<le> y \<and> y \<le> 63" by simp
  have h4: "int_labels_nonneg ?g" by simp
  have a: "rev (stable_argsort [0.2, 0.9]) = [1, 0]"
    "rev (stable_argsort (label_values ?g)) = [0, 1]"
    by (simp_all add: stable_argsort_def upt_rec [of _ "numeral _"] upt_rec [of _ "Suc _"])
  have n: "min (nat 2) (length (label_values ?g)) = 2" by simp
  have d1: "dcg_score stable_argsort ?g [0.2, 0.9] 2 = Inr (1 / log 2 3)"
    unfolding dcg_score_sum [OF h1 h2 stable_argsort_sorts h3] a n sum_upto_2 by simp
  have d2: "dcg_score stable_argsort ?g (label_values ?g) 2 = Inr 1"
    unfolding dcg_score_sum [OF refl h2 stable_argsort_sorts h3] a n sum_upto_2 by simp
  from ndcg_score_ratio [OF h1 h2 stable_argsort_sorts] d1 d2
  have "ndcg_score stable_argsort ?g [0.2, 0.9] 2 = Inr (Finite (1 / log 2 3))"
    by (auto simp: fdiv_def)
  with h1 h2 h4 stable_argsort_sorts d1 d2 show ?thesis by blast
qed

section \<open>Reciprocal rank\<close>

text \<open>
  C3.  In an integer array the total \<open>np.sum(y_true)\<close> is a 64-bit integer: for the
  two labels \<open>2 ^ 62\<close> it wraps to \<open>- 2 ^ 63\<close>, and \<open>mrr_score\<close> returns
  \<open>- 3/4\<close> where the weighted sum divided by the total relevance is \<open>3/4\<close>.
\<close>

theorem mrr_score_int_sum_counterexample:
  "mrr_score stable_argsort (Ints [4611686018427387904, 4611686018427387904]) [2, 1]
     = Inr (Finite (- 3 / 4))
   \<and> fdiv (4611686018427387904 / 1 + 4611686018427387904 / 2)
          (4611686018427387904 + 4611686018427387904) = Finite (3 / 4)"
proof -
  let ?g = "Ints [4611686018427387904, 4611686018427387904]"
  have h1: "length (label_values ?g) = length [2, 1::real]" by simp
  have a: "rev (stable_argsort [2, 1]) = [0, 1]"
    by (simp add: stable_argsort_def upt_rec [of _ "numeral _"] upt_rec [of _ "Suc _"])
  have n: "length (label_values ?g) = 2" by simp
  have t: "np_sum ?g = - 9223372036854775808"
    by (simp add: wrap64_def)
  have "mrr_score stable_argsort ?g [2, 1] = Inr (Finite (- 3 / 4))"
    unfolding mrr_score_sum [OF h1 stable_argsort_sorts] a n sum_upto_2 t
    by (simp add: fdiv_def)
  moreover have "fdiv (4611686018427387904 / 1 + 4611686018427387904 / 2)
      (4611686018427387904 + 4611686018427387904) = Finite (3 / 4)"
    by (simp add: fdiv_def)
  ultimately show ?thesis by blast
qed

text \<open>
  C3, amended.  For vectors of the same length, the total of the labels fitting the
  64-bit integer type when the ground truth is an integer array, \<open>mrr_score\<close> orders
  all candidates by descending score without a cutoff (equal scores in the order the
  sort gives them), weights the relevance at zero-based rank \<open>i\<close> by \<open>1 / (i + 1)\<close>,
  sums over all positions and divides the sum by the total ground-truth relevance.
\<close>

theorem mrr_score_weighted_sum:
  assumes "length (label_values y_true) = length y_score" and "sorts_indices argsort"
    and "\<forall>ys. y_true = Ints ys \<longrightarrow> - (2 ^ 63) \<le> sum_list ys \<and> sum_list ys < 2 ^ 63"
  shows "mset (rev (argsort y_score)) = mset [0..<length y_score]
       \<and> sorted_wrt (\<lambda>a b. b \<le> a) (map (\<lambda>i. y_score ! i) (rev (argsort y_score)))
       \<and> mrr_score argsort y_true y_score =
           Inr (fdiv (\<Sum>i<length (label_values y_true).
                        label_values y_true ! (rev (argsort y_score) ! i) / (real i + 1))
                     (sum_list (label_values y_true)))"
  using assms(1,2) order_mset [of argsort y_score] order_descending [of argsort y_score]
    mrr_score_sum [of y_true y_score argsort] np_sum_in_range [OF assms(3)]
  by simp

theorem mrr_score_weighted_sum_witness:
  "length (label_values (Floats [1, 0, 1])) = length [0.3, 0.2, 0.1::real]
   \<and> sorts_indices stable_argsort
   \<and> mrr_score stable_argsort (Floats [1, 0, 1]) [0.3, 0.2, 0.1] = Inr (Finite (2 / 3))
   \<and> length (label_values (Ints [1, 0, 0, 0])) = length [2, 2, 1, 1::real]
   \<and> sorts_indices reverse_ties_argsort
   \<and> - (2 ^ 63) \<le> sum_list [1, 0, 0, 0::int] \<and> sum_list [1, 0, 0, 0::int] < 2 ^ 63
   \<and> mrr_score reverse_ties_argsort (Ints [1, 0, 0, 0]) [2, 2, 1, 1] = Inr (Finite 1)"
proof -
  let ?f = "Floats [1, 0, 1]"
  have h1: "length (label_values ?f) = length [0.3, 0.2, 0.1::real]" by simp
  have h3: "\<forall>ys. ?f = Ints ys \<longrightarrow> - (2 ^ 63) \<le> sum_list ys \<and> sum_list ys < 2 ^ 63"
    by simp
  have a: "rev (stable_argsort [0.3, 0.2, 0.1]) = [0, 1, 2]"
    by (simp add: stable_argsort_def upt_rec [of _ "numeral _"] upt_rec [of _ "Suc _"])
  have n: "length (label_values ?f) = 3" by simp
  from mrr_score_weighted_sum [OF h1 stable_argsort_sorts h3]
  have "mrr_score stable_argsort ?f [0.3, 0.2, 0.1] =
      Inr (fdiv (\<Sum>i<length (label_values ?f).
                   label_values ?f ! (rev (stable_argsort [0.3, 0.2, 0.1]) ! i) / (real i + 1))
                (sum_list (label_values ?f)))"
    by blast
  then have r1: "mrr_score stable_argsort ?f [0.3, 0.2, 0.1] = Inr (Finite (2 / 3))"
    unfolding a n sum_upto_3 by (simp add: fdiv_def)
  let ?g = "Ints [1, 0, 0, 0]"
  have g1: "length (label_values ?g) = length [2, 2, 1, 1::real]" by simp
  have g2: "- (2 ^ 63) \<le> sum_list [1, 0, 0, 0::int]" "sum_list [1, 0, 0, 0::int] < 2 ^ 63"
    by simp_all
  then have g3: "\<forall>ys. ?g = Ints ys \<longrightarrow> - (2 ^ 63) \<le> sum_list ys \<and> sum_list ys < 2 ^ 63"
    by simp
  have b: "rev (reverse_ties_argsort [2, 2, 1, 1]) = [0, 1, 2, 3]"
    by (simp add: reverse_ties_argsort_def upt_rec [of _ "numeral _"] upt_rec [of _ "Suc _"])
  have s: "\<And>f :: nat \<Rightarrow> real. (\<Sum>i<4. f i) = f 0 + f 1 + f 2 + f 3"
    by (simp add: numeral_eq_Suc lessThan_Suc)
  have m: "length (label_values ?g) = 4" by simp
  from mrr_score_weighted_sum [OF g1 reverse_ties_argsort_sorts g3]
  have "mrr_score reverse_ties_argsort ?g [2, 2, 1, 1] =
      Inr (fdiv (\<Sum>i<length (label_values ?g).
                   label_values ?g ! (rev (reverse_ties_argsort [2, 2, 1, 1]) ! i) / (real i + 1))
                (sum_list (label_values ?g)))"
    by blast
  then have r2: "mrr_score reverse_ties_argsort ?g [2, 2, 1, 1] = Inr (Finite 1)"
    unfolding b m s by (simp add: fdiv_def)
  from h1 stable_argsort_sorts r1 g1 reverse_ties_argsort_sorts g2 r2 show ?thesis by blast
qed

section \<open>Hit at k\<close>

text \<open>
  C4.  For vectors of the same length and a positive cutoff, \<open>hit_score\<close> is 1
  exactly when one of the first \<open>k\<close> indices in descending score order (equal scores
  in the order the sort gives them) carries the label 1, and 0 otherwise; on an
  all-zero ground truth it is 0 whatever the scores.
\<close>

theorem hit_score_top_k:
  assumes "length (label_values y_true) = length y_score" and "0 < k"
    and "sorts_indices argsort"
  shows "mset (rev (argsort y_score)) = mset [0..<length y_score]
       \<and> sorted_wrt (\<lambda>a b. b \<le> a) (map (\<lambda>i. y_score ! i) (rev (argsort y_score)))
       \<and> (hit_score argsort y_true y_score k = 1
            \<longleftrightarrow> (\<exists>i\<in>set (take (nat k) (rev (argsort y_score))). label_values y_true ! i = 1))
       \<and> (hit_score argsort y_true y_score k \<noteq> 1 \<longrightarrow> hit_score argsort y_true y_score k = 0)
       \<and> ((\<forall>y\<in>set (label_values y_true). y = 0) \<longrightarrow> hit_score argsort y_true y_score k = 0)"
proof -
  let ?top = "take (nat k) (rev (argsort y_score))"
  let ?vals = "label_values y_true"
  have "set ?top \<subseteq> set (rev (argsort y_score))"
    by (rule set_take_subset)
  then have inb: "\<And>i. i \<in> set ?top \<Longrightarrow> i < length ?vals"
    using assms(1) by (auto simp: sorts_indices_set [OF assms(3)])
  have zero: "hit_score argsort y_true y_score k = 0" if z: "\<forall>y\<in>set ?vals. y = 0"
  proof -
    have "\<not> (\<exists>i\<in>set ?top. ?vals ! i = 1)"
    proof
      assume "\<exists>i\<in>set ?top. ?vals ! i = 1"
      then obtain i where i: "i \<in> set ?top" "?vals ! i = 1" by blast
      from inb [OF i(1)] have "?vals ! i \<in> set ?vals" by simp
      with z i(2) show False by auto
    qed
    then show ?thesis by (simp add: hit_score_iff [OF assms])
  qed
  show ?thesis
    using order_mset [OF assms(3), of y_score] order_descending [OF assms(3), of y_score] zero
    by (simp add: hit_score_iff [OF assms])
qed

theorem hit_score_top_k_witness:
  "length (label_values (Ints [0, 1, 0])) = length [0.2, 0.9, 0.5::real] \<and> (0::int) < 1
   \<and> sorts_indices stable_argsort
   \<and> take (nat 1) (rev (stable_argsort [0.2, 0.9, 0.5])) = [1]
   \<and> hit_score stable_argsort (Ints [0, 1, 0]) [0.2, 0.9, 0.5] 1 = 1
   \<and> hit_score stable_argsort (Ints [1, 0, 0]) [0.2, 0.9, 0.5] 1 = 0
   \<and> set (label_values (Floats [0, 0, 0])) = {0}
   \<and> hit_score stable_argsort (Floats [0, 0, 0]) [0.2, 0.9, 0.5] 1 = 0
   \<and> sorts_indices reverse_ties_argsort
   \<and> take (nat 1) (rev (reverse_ties_argsort [2, 2, 1, 1])) = [0]
   \<and> hit_score reverse_ties_argsort (Ints [1, 0, 0, 0]) [2, 2, 1, 1] 1 = 1"
proof -
  have h1: "length (label_values (Ints [0, 1, 0])) = length [0.2, 0.9, 0.5::real]"
    and h1': "length (label_values (Ints [1, 0, 0])) = length [0.2, 0.9, 0.5::real]"
    and h1'': "length (label_values (Floats [0, 0, 0])) = length [0.2, 0.9, 0.5::real]"
    and g1: "length (label_values (Ints [1, 0, 0, 0])) = length [2, 2, 1, 1::real]" by simp_all
  have h2: "(0::int) < 1" by simp
  have z: "set (label_values (Floats [0, 0, 0])) = {0}" by simp
  have a: "take (nat 1) (rev (stable_argsort [0.2, 0.9, 0.5])) = [1]"
    by (simp add: stable_argsort_def upt_rec [of _ "numeral _"] upt_rec [of _ "Suc _"])
  have b: "take (nat 1) (rev (reverse_ties_argsort [2, 2, 1, 1])) = [0]"
    by (simp add: reverse_ties_argsort_def upt_rec [of _ "numeral _"] upt_rec [of _ "Suc _"])
  have r1: "hit_score stable_argsort (Ints [0, 1, 0]) [0.2, 0.9, 0.5] 1 = 1"
    using hit_score_top_k [OF h1 h2 stable_argsort_sorts] unfolding a by simp
  have r2: "hit_score stable_argsort (Ints [1, 0, 0]) [0.2, 0.9, 0.5] 1 = 0"
    using hit_score_top_k [OF h1' h2 stable_argsort_sorts] unfolding a by simp
  have r3: "hit_score stable_argsort (Floats [0, 0, 0]) [0.2, 0.9, 0.5] 1 = 0"
    using hit_score_top_k [OF h1'' h2 stable_argsort_sorts] by simp
  have r4: "hit_score reverse_ties_argsort (Ints [1, 0, 0, 0]) [2, 2, 1, 1] 1 = 1"
    using hit_score_top_k [OF g1 h2 reverse_ties_argsort_sorts] unfolding b by simp
  from h1 h2 stable_argsort_sorts a r1 r2 z r3 reverse_ties_argsort_sorts b r4
  show ?thesis by blast
qed

section \<open>Zero divisors\<close>



section \<open>Rescaling the scores\<close>

text \<open>
  C7.  \<open>dcg_score\<close> does not change when the scores are rescaled by a strictly
  increasing function, which keeps their rank order: a sort that only compares the
  scores returns the same order for both.
\<close>

theorem dcg_score_rescaling:
  fixes f :: "real \<Rightarrow> real"
  assumes "compares_only argsort" and "strict_mono f"
  shows "dcg_score argsort y_true (map f y_score) k = dcg_score argsort y_true y_score k"
  by (simp add: dcg_score_def compares_only_strict_mono [OF assms])

theorem dcg_score_rescaling_witness:
  "compares_only stable_argsort \<and> strict_mono (\<lambda>x::real. 2 * x + 1)
   \<and> dcg_score stable_argsort (Floats [3, 2, 0, 0, 1])
         (map (\<lambda>x. 2 * x + 1) [0.1, 0.4, 0.3, 0.2, 0.5]) 3
       = dcg_score stable_argsort (Floats [3, 2, 0, 0, 1]) [0.1, 0.4, 0.3, 0.2, 0.5] 3"
proof -
  have h: "strict_mono (\<lambda>x::real. 2 * x + 1)"
    by (simp add: strict_mono_def)
  from stable_argsort_compares h dcg_score_rescaling [OF stable_argsort_compares h]
  show ?thesis by blast
qed

section \<open>All-one ground truth\<close>

text \<open>
  C8.  On the empty vector, whose entries are all equal to 1 vacuously, both DCG values
  are the empty sum, and \<open>ndcg_score\<close> returns NaN, not 1.
\<close>

theorem ndcg_score_empty_counterexample:
  "ndcg_score stable_argsort (Floats []) (label_values (Floats [])) 1 = Inr NaN
   \<and> ndcg_score stable_argsort (Floats []) (label_values (Floats [])) 1 \<noteq> Inr (Finite 1)"
  by (simp add: ndcg_score_def dcg_score_def stable_argsort_def slice_to_def np_take_def
      fdiv_def)

text \<open>
  C8, amended.  For every non-empty ground-truth vector whose entries are all equal to
  1 and every positive cutoff, \<open>ndcg_score gt gt k\<close> is 1.
\<close>

theorem ndcg_score_all_ones:
  assumes srt: "sorts_indices argsort" and ne: "label_values gt \<noteq> []"
    and ones: "\<forall>y\<in>set (label_values gt). y = 1" and k: "0 < k"
  shows "ndcg_score argsort gt (label_values gt) k = Inr (Finite 1)"
proof -
  let ?v = "label_values gt"
  let ?m = "min (nat k) (length ?v)"
  let ?order = "rev (argsort ?v)"
  let ?s = "\<Sum>i<?m. (2 powr (?v ! (?order ! i)) - 1) / log 2 (real i + 2)"
  have range: "\<forall>y\<in>set ?v. 0 \<le> y \<and> y \<le> 63"
    using ones by auto
  have d: "dcg_score argsort gt ?v k = Inr ?s"
    using refl k srt range by (rule dcg_score_sum)
  have m: "0 < ?m" using ne k by simp
  have rel: "?v ! (?order ! i) = 1" if "i < ?m" for i
  proof -
    from that have "i < length ?order" by (simp add: sorts_indices_length [OF srt])
    then have "?order ! i \<in> set ?order" by (rule nth_mem)
    then have "?order ! i < length ?v" by (simp add: sorts_indices_set [OF srt])
    then have "?v ! (?order ! i) \<in> set ?v" by (rule nth_mem)
    with ones show ?thesis by blast
  qed
  have pos: "0 < (2 powr (?v ! (?order ! i)) - 1) / log 2 (real i + 2)" if "i < ?m" for i
    using rel [OF that] by simp
  have "0 \<in> {..<?m}" using m by simp
  then have "{..<?m} \<noteq> {}" by blast
  then have "0 < ?s"
    by (intro sum_pos) (use pos in auto)
  then have "?s \<noteq> 0" by simp
  then show ?thesis
    unfolding ndcg_score_def d by (simp add: fdiv_def)
qed

theorem ndcg_score_all_ones_witness:
  "sorts_indices reverse_ties_argsort \<and> label_values (Ints [1, 1, 1]) \<noteq> []
   \<and> set (label_values (Ints [1, 1, 1])) = {1} \<and> (0::int) < 2
   \<and> ndcg_score reverse_ties_argsort (Ints [1, 1, 1]) (label_values (Ints [1, 1, 1])) 2
       = Inr (Finite 1)"
proof -
  have h1: "label_values (Ints [1, 1, 1]) \<noteq> []" by simp
  have h2: "\<forall>y\<in>set (label_values (Ints [1, 1, 1])). y = 1" by simp
  have h3: "(0::int) < 2" by simp
  have "set (label_values (Ints [1, 1, 1])) = {1}" by simp
  with h1 h3 reverse_ties_argsort_sorts
    ndcg_score_all_ones [OF reverse_ties_argsort_sorts h1 h2 h3]
  show ?thesis by blast
qed

section \<open>Duration format\<close>

text \<open>
  C9.  \<open>format_time 90061.5\<close> is the string \<open>1d 1h 1m 1.50s\<close>, and
  \<open>format_time 987654.321\<close> is \<open>11d 10h 20m 54.32s\<close>.  In general the duration is
  split by floored division by 86400, then 3600, then 60.  The parts add up to the
  duration, hours lie in 0..23, minutes in 0..59 and the rest in \<open>[0, 60)\<close>.  The string
  printed is, character by character: the days in decimal without leading zeros, with a
  minus sign when negative; \<open>d\<close> and a blank; the hours; \<open>h\<close> and a blank; the minutes;
  \<open>m\<close> and a blank; the rest rounded to the nearest hundredth (a tie to the even one),
  as its whole part, a point and exactly two digits; and \<open>s\<close>.  Characters are given by
  their codes, a digit \<open>k\<close> being 48 + k.
\<close>

theorem format_time_decomposition:
  "format_time 90061.5 = ''1d 1h 1m 1.50s''
   \<and> format_time 987654.321 = ''11d 10h 20m 54.32s''
   \<and> (let d = \<lfloor>s / 86400\<rfloor>; r1 = s - of_int d * 86400;
           h = \<lfloor>r1 / 3600\<rfloor>; r2 = r1 - of_int h * 3600;
           m = \<lfloor>r2 / 60\<rfloor>; sec = r2 - of_int m * 60;
           dig = (\<lambda>k::nat. 48 + k);
           two = (\<lambda>n::nat. if n < 10 then [dig n] else [dig (n div 10), dig (n mod 10)])
       in s = 86400 * of_int d + 3600 * of_int h + 60 * of_int m + sec
        \<and> 0 \<le> h \<and> h < 24 \<and> 0 \<le> m \<and> m < 60 \<and> 0 \<le> sec \<and> sec < 60
        \<and> (\<exists>ds c.
              (map of_char (format_time s) :: nat list) =
                (if d < 0 then map of_char ''-'' else []) @ map dig ds @ map of_char ''d ''
                  @ two (nat h) @ map of_char ''h ''
                  @ two (nat m) @ map of_char ''m ''
                  @ two (c div 100) @ map of_char ''.''
                  @ [dig (c mod 100 div 10), dig (c mod 10)] @ map of_char ''s''
            \<and> list_all (\<lambda>k. k < 10) ds \<and> ds \<noteq> [] \<and> (length ds = 1 \<or> 0 < hd ds)
            \<and> foldl (\<lambda>a k. 10 * a + k) 0 ds = nat \<bar>d\<bar>
            \<and> \<bar>real c - 100 * sec\<bar> \<le> 1 / 2
            \<and> (\<bar>real c - 100 * sec\<bar> < 1 / 2 \<or> even c)))"
proof -
  define d where "d = \<lfloor>s / 86400\<rfloor>"
  define r1 where "r1 = s - of_int d * 86400"
  define h where "h = \<lfloor>r1 / 3600\<rfloor>"
  define r2 where "r2 = r1 - of_int h * 3600"
  define m where "m = \<lfloor>r2 / 60\<rfloor>"
  define sec where "sec = r2 - of_int m * 60"
  define c where "c = nat (round_half_even (sec * 100))"
  define dig where "dig = (\<lambda>k::nat. 48 + k)"
  define two where "two = (\<lambda>n::nat. if n < 10 then [dig n] else [dig (n div 10), dig (n mod 10)])"
  have dm1: "py_divmod s 86400 = (of_int d, r1)"
    by (simp add: py_divmod_def d_def r1_def)
  have dm2: "py_divmod r1 3600 = (of_int h, r2)"
    by (simp add: py_divmod_def h_def r2_def)
  have dm3: "py_divmod r2 60 = (of_int m, sec)"
    by (simp add: py_divmod_def m_def sec_def)
  have ft: "format_time s =
      str_int d @ ''d '' @ str_int h @ ''h '' @ str_int m @ ''m '' @ fmt_2f sec @ ''s''"
    unfolding format_time_def dm1 dm2 dm3 Let_def prod.case py_int_of_int ..
  have r1: "0 \<le> r1" "r1 < 86400"
    using divmod_range(1,2) [of 86400 s] by (simp_all add: dm1)
  have r2: "0 \<le> r2" "r2 < 3600"
    using divmod_range(1,2) [of 3600 r1] by (simp_all add: dm2)
  have sc: "0 \<le> sec" "sec < 60"
    using divmod_range(1,2) [of 60 r2] by (simp_all add: dm3)
  have hr: "0 \<le> h" "h < 24"
    unfolding h_def using floor_range [of r1 24 3600] r1 by simp_all
  have mr: "0 \<le> m" "m < 60"
    unfolding m_def using floor_range [of r2 60 60] r2 by simp_all
  have total: "s = 86400 * of_int d + 3600 * of_int h + 60 * of_int m + sec"
    by (simp add: sec_def r2_def r1_def)
  from str_int_decimal [of d] obtain ds
    where days: "map of_char (str_int d) = (if d < 0 then map of_char ''-'' else []) @ map dig ds"
      and ds: "list_all (\<lambda>k. k < 10) ds" "ds \<noteq> []" "length ds = 1 \<or> 0 < hd ds"
        "foldl (\<lambda>a k. 10 * a + k) 0 ds = nat \<bar>d\<bar>"
    unfolding dig_def by blast
  have hours: "map of_char (str_int h) = two (nat h)"
    using hr by (simp add: str_int_def str_nat_two_ascii two_def dig_def)
  have minutes: "map of_char (str_int m) = two (nat m)"
    using mr by (simp add: str_int_def str_nat_two_ascii two_def dig_def)
  have rnd: "0 \<le> round_half_even (sec * 100)"
    using sc(1) by (intro round_half_even_nonneg) simp
  have "sec * 100 < of_int 6000" using sc(2) by simp
  then have "round_half_even (sec * 100) \<le> 6000"
    by (rule round_half_even_upper)
  then have cb: "c div 100 < 100"
    using rnd by (simp add: c_def)
  have digs: "c mod 100 div 10 < 10" "c mod 10 < 10" by simp_all
  have "fmt_2f sec =
      str_nat (c div 100) @ ''.'' @ [digit_char (c mod 100 div 10), digit_char (c mod 10)]"
    using sc(1) by (simp add: fmt_2f_def c_def Let_def)
  then have secs: "map of_char (fmt_2f sec) =
      two (c div 100) @ map of_char ''.'' @ [dig (c mod 100 div 10), dig (c mod 10)]"
    by (simp add: str_nat_two_ascii [OF cb] digit_char_ascii [OF digs(1)]
        digit_char_ascii [OF digs(2)] two_def dig_def)
  have str: "(map of_char (format_time s) :: nat list) =
      (if d < 0 then map of_char ''-'' else []) @ map dig ds @ map of_char ''d ''
        @ two (nat h) @ map of_char ''h ''
        @ two (nat m) @ map of_char ''m ''
        @ two (c div 100) @ map of_char ''.''
        @ [dig (c mod 100 div 10), dig (c mod 10)] @ map of_char ''s''"
    unfolding ft map_append days hours minutes secs by simp
  have rc: "real c = of_int (round_half_even (sec * 100))"
    using rnd by (simp add: c_def)
  have near: "\<bar>real c - 100 * sec\<bar> \<le> 1 / 2"
    using round_half_even_near [of "sec * 100"] by (simp add: rc mult.commute)
  have "even c = even (round_half_even (sec * 100))"
    using rnd by (simp add: c_def even_nat_iff)
  then have tie: "\<bar>real c - 100 * sec\<bar> < 1 / 2 \<or> even c"
    using round_half_even_tie [of "sec * 100"] by (simp add: rc mult.commute)
  have general: "s = 86400 * of_int d + 3600 * of_int h + 60 * of_int m + sec
      \<and> 0 \<le> h \<and> h < 24 \<and> 0 \<le> m \<and> m < 60 \<and> 0 \<le> sec \<and> sec < 60
      \<and> (\<exists>ds c.
            (map of_char (format_time s) :: nat list) =
              (if d < 0 then map of_char ''-'' else []) @ map dig ds @ map of_char ''d ''
                @ two (nat h) @ map of_char ''h ''
                @ two (nat m) @ map of_char ''m ''
                @ two (c div 100) @ map of_char ''.''
                @ [dig (c mod 100 div 10), dig (c mod 10)] @ map of_char ''s''
          \<and> list_all (\<lambda>k. k < 10) ds \<and> ds \<noteq> [] \<and> (length ds = 1 \<or> 0 < hd ds)
          \<and> foldl (\<lambda>a k. 10 * a + k) 0 ds = nat \<bar>d\<bar>
          \<and> \<bar>real c - 100 * sec\<bar> \<le> 1 / 2
          \<and> (\<bar>real c - 100 * sec\<bar> < 1 / 2 \<or> even c))"
    using total hr mr sc str ds near tie by blast
  show ?thesis
    unfolding Let_def
    by (rule conjI [OF format_time_example conjI [OF format_time_example_2
          general [unfolded two_def dig_def sec_def m_def r2_def h_def r1_def d_def]]])
qed

section \<open>Padded stack\<close>

text \<open>
  C6.  For a non-empty list of 1-D and 2-D arrays and any pad value, \<open>pad_and_stack\<close>
  returns one 2-D array whose column count is the largest column count of the inputs
  and whose rows are the rows of all inputs in order, a 1-D input counting as one row,
  each row extended on the right with the pad value to that width.  The two 1-D arrays
  \<open>[1,2]\<close> and \<open>[3,4,5]\<close> with pad value 0 give \<open>[[1,2,0],[3,4,5]]\<close>.
\<close>

theorem pad_and_stack_rows:
  assumes "arrays \<noteq> []" and "\<forall>a\<in>set arrays. wf_array a"
  shows "(let max_cols = Max (shape_last ` set arrays);
              padded = concat (map (\<lambda>a. map (\<lambda>r. r @ replicate (max_cols - length r) pad_value)
                                              (rows_of a)) arrays)
          in snd (pad_and_stack arrays pad_value) = Inr (Arr2 max_cols padded)
           \<and> list_all (\<lambda>r. length r = max_cols) padded
           \<and> length padded = sum_list (map (\<lambda>a. length (rows_of a)) arrays))
       \<and> snd (pad_and_stack [Arr1 [1, 2], Arr1 [3, 4, 5::int]] 0)
           = Inr (Arr2 3 [[1, 2, 0], [3, 4, 5]])"
proof -
  let ?m = "Max (shape_last ` set arrays)"
  let ?padded = "concat (map (\<lambda>a. map (\<lambda>r. r @ replicate (?m - length r) pad_value)
                                        (rows_of a)) arrays)"
  have res: "snd (pad_and_stack arrays pad_value) = Inr (Arr2 ?m ?padded)"
    using assms by (intro pad_and_stack_result) auto
  have "length r = ?m" if "r \<in> set ?padded" for r
  proof -
    from that obtain a r' where a: "a \<in> set arrays" "r' \<in> set (rows_of a)"
      and r: "r = r' @ replicate (?m - length r') pad_value"
      by auto
    from a assms(2) have "length r' = shape_last a"
      by (intro rows_of_length) auto
    moreover from a(1) have "shape_last a \<le> ?m" by simp
    ultimately show ?thesis by (simp add: r)
  qed
  then have wide: "list_all (\<lambda>r. length r = ?m) ?padded"
    unfolding list_all_iff by blast
  have count: "length ?padded = sum_list (map (\<lambda>a. length (rows_of a)) arrays)"
    by (simp add: length_concat comp_def)
  have ex: "snd (pad_and_stack [Arr1 [1, 2], Arr1 [3, 4, 5::int]] 0)
      = Inr (Arr2 3 [[1, 2, 0], [3, 4, 5]])"
    by (simp add: pad_and_stack_example)
  from res wide count ex show ?thesis
    unfolding Let_def by blast
qed

theorem pad_and_stack_rows_witness:
  "[Arr1 [1, 2], Arr2 3 [[3, 4, 5], [6, 7, 8::int]]] \<noteq> []
   \<and> wf_array (Arr1 [1, 2::int]) \<and> wf_array (Arr2 3 [[3, 4, 5], [6, 7, 8::int]])
   \<and> snd (pad_and_stack [Arr1 [1, 2], Arr2 3 [[3, 4, 5], [6, 7, 8::int]]] 0)
       = Inr (Arr2 3 [[1, 2, 0], [3, 4, 5], [6, 7, 8]])"
proof -
  let ?arrays = "[Arr1 [1, 2], Arr2 3 [[3, 4, 5], [6, 7, 8::int]]]"
  have h1: "?arrays \<noteq> []" by simp
  have w: "wf_array (Arr1 [1, 2::int])" "wf_array (Arr2 3 [[3, 4, 5], [6, 7, 8::int]])"
    by simp_all
  then have h2: "\<forall>a\<in>set ?arrays. wf_array a" by simp
  have m: "Max (shape_last ` set ?arrays) = 3" by simp
  from pad_and_stack_rows [OF h1 h2, of 0]
  have "snd (pad_and_stack ?arrays 0) = Inr (Arr2 3 [[1, 2, 0], [3, 4, 5], [6, 7, 8]])"
    unfolding Let_def m by (simp add: numeral_eq_Suc)
  with h1 w show ?thesis by blast
qed

section \<open>The caller's list after the call\<close>

text \<open>
  C10.  \<open>pad_and_stack\<close> changes its argument: when the list holds a 1-D array, the
  list after the call differs from the list before, every 1-D entry being replaced in
  place by its single-row 2-D version and every 2-D entry left as it was.
\<close>

theorem pad_and_stack_mutates:
  assumes "\<exists>a\<in>set arrays. ndim a = 1"
  shows "fst (pad_and_stack arrays pad_value) \<noteq> arrays
       \<and> length (fst (pad_and_stack arrays pad_value)) = length arrays
       \<and> (\<forall>i<length arrays.
             fst (pad_and_stack arrays pad_value) ! i =
               (case arrays ! i of
                  Arr1 xs \<Rightarrow> Arr2 (length xs) [xs]
                | Arr2 c rows \<Rightarrow> Arr2 c rows))"
proof -
  have after: "fst (pad_and_stack arrays pad_value) = map atleast_2d arrays"
    by (simp add: pad_and_stack_def Let_def promote_loop_map)
  have each: "atleast_2d a = (case a of Arr1 xs \<Rightarrow> Arr2 (length xs) [xs] | Arr2 c rows \<Rightarrow> Arr2 c rows)"
    for a :: "'a ndarray"
    by (cases a) simp_all
  from assms obtain a where a: "a \<in> set arrays" "ndim a = 1" by blast
  then obtain i where i: "i < length arrays" "arrays ! i = a"
    by (auto simp: in_set_conv_nth)
  from a(2) obtain xs where xs: "a = Arr1 xs" by (cases a) simp_all
  have "map atleast_2d arrays ! i = Arr2 (length xs) [xs]"
    using i xs by simp
  with i xs have "map atleast_2d arrays ! i \<noteq> arrays ! i" by simp
  then have "map atleast_2d arrays \<noteq> arrays" by metis
  then show ?thesis
    unfolding after by (simp add: each)
qed

theorem pad_and_stack_mutates_witness:
  "ndim (Arr1 [1, 2::int]) = 1
   \<and> fst (pad_and_stack [Arr1 [1, 2], Arr2 3 [[3, 4, 5::int]]] 0)
       = [Arr2 2 [[1, 2]], Arr2 3 [[3, 4, 5]]]
   \<and> fst (pad_and_stack [Arr1 [1, 2], Arr2 3 [[3, 4, 5::int]]] 0)
       \<noteq> [Arr1 [1, 2], Arr2 3 [[3, 4, 5]]]"
proof -
  let ?arrays = "[Arr1 [1, 2], Arr2 3 [[3, 4, 5::int]]]"
  have h: "\<exists>a\<in>set ?arrays. ndim a = 1" by simp
  have v: "fst (pad_and_stack ?arrays 0) = [Arr2 2 [[1, 2]], Arr2 3 [[3, 4, 5]]]"
    by (simp add: pad_and_stack_def Let_def promote_loop_map)
  from pad_and_stack_mutates [OF h, of 0]
  have "fst (pad_and_stack ?arrays 0) \<noteq> ?arrays" by blast
  with v show ?thesis by simp
qed


end
